theory Spec2Isabelle
  imports Main "HOL-Library.Word" "HOL-Library.Monad_Syntax" "HOL-Library.Sublist"
begin

section \<open>Conway's Game of Life on an 8x8 LED matrix (main.ino)\<close>

text \<open>
  The sketch keeps its whole state in globals: the grid \<open>world\<close>, the time stamp
  \<open>lastTime\<close> and the two flags \<open>paused\<close> and \<open>step\<close>. The functions of the sketch are
  embedded as functions on that state. A read or a write of an array outside its bounds
  (undefined behaviour in C++) is the value \<open>None\<close>.

  The sketch's \<open>int\<close> is modelled by \<open>int\<close>: every \<open>int\<close> the sketch computes from an
  index in 0..7 lies in -1..8, and the neighbour count in 0..8. \<open>unsigned long\<close> is a
  32-bit word.
\<close>

subsection \<open>Constants and arrays\<close>

abbreviation (input) ROWS :: int where "ROWS \<equiv> 8"
abbreviation (input) COLS :: int where "COLS \<equiv> 8"

abbreviation (input) HIGH :: bool where "HIGH \<equiv> True"
abbreviation (input) LOW :: bool where "LOW \<equiv> False"

text \<open>
  The pin tables \<open>row\<close> and \<open>col\<close>. The pin numbers of the analog inputs A0..A7 come
  from the board's core headers, not from the sketch: \<open>an k\<close> is the pin number of
  \<open>Ak\<close>, a parameter of the model.
\<close>

definition row :: "(nat \<Rightarrow> int) \<Rightarrow> int list" where
  "row an = [0, 5, an 7, 3, an 0, an 6, an 1, an 4]"

definition col :: "(nat \<Rightarrow> int) \<Rightarrow> int list" where
  "col an = [4, an 2, an 3, 1, an 5, 2, 6, 7]"

text \<open>\<open>bool world[ROWS][COLS]\<close>: a list of rows.\<close>

type_synonym grid = "bool list list"

definition wf_world :: "grid \<Rightarrow> bool" where
  "wf_world w = (int (length w) = ROWS \<and> list_all (\<lambda>rw. int (length rw) = COLS) w)"

text \<open>\<open>xs[i]\<close>, for an \<open>int\<close> index.\<close>

definition index :: "'a list \<Rightarrow> int \<Rightarrow> 'a option" where
  "index xs i = (if 0 \<le> i \<and> i < int (length xs) then Some (xs ! nat i) else None)"

text \<open>\<open>w[y][x]\<close>, read.\<close>

definition cell :: "grid \<Rightarrow> int \<Rightarrow> int \<Rightarrow> bool option" where
  "cell w y x = do { rw \<leftarrow> index w y; index rw x }"

text \<open>\<open>w[y][x] = b\<close>.\<close>

definition put_cell :: "grid \<Rightarrow> int \<Rightarrow> int \<Rightarrow> bool \<Rightarrow> grid option" where
  "put_cell w y x b = do {
     rw \<leftarrow> index w y;
     _ \<leftarrow> index rw x;
     Some (w[nat y := rw[nat x := b]])
   }"

text \<open>The remainder \<open>a % b\<close> of C++: the quotient is truncated towards zero.\<close>

definition c_rem :: "int \<Rightarrow> int \<Rightarrow> int" where
  "c_rem a b = sgn a * (\<bar>a\<bar> mod \<bar>b\<bar>)"

text \<open>\<open>i >= 0 ? i % n : n - 1\<close>, as written for \<open>y\<close> (n = ROWS) and \<open>x\<close> (n = COLS).\<close>

definition wrap_index :: "int \<Rightarrow> int \<Rightarrow> int" where
  "wrap_index i n = (if 0 \<le> i then c_rem i n else n - 1)"

text \<open>
  A \<open>for\<close> loop over the values of its counter, with the loop's variables as the state
  of the body. A body that fails ends the loop.
\<close>

fun for_loop :: "int list \<Rightarrow> (int \<Rightarrow> 's \<Rightarrow> 's option) \<Rightarrow> 's \<Rightarrow> 's option" where
  "for_loop [] body s = Some s"
| "for_loop (i # is) body s =
     (case body i s of None \<Rightarrow> None | Some s' \<Rightarrow> for_loop is body s')"

subsection \<open>countNeighbors\<close>

definition countNeighbors :: "grid \<Rightarrow> int \<Rightarrow> int \<Rightarrow> int option" where
  "countNeighbors w r c =
     for_loop [r - 1..r + 1] (\<lambda>i.
       for_loop [c - 1..c + 1] (\<lambda>j neighbors.
         if i = r \<and> j = c then Some neighbors
         else do {
           let y = wrap_index i ROWS;
           let x = wrap_index j COLS;
           b \<leftarrow> cell w y x;
           Some (neighbors + (if b then 1 else 0))
         })) 0"

subsection \<open>updateWorld\<close>

text \<open>
  The \<open>switch\<close> on the neighbour count. Its second argument is the read of
  \<open>world[r][c]\<close>, which only case 2 performs.
\<close>

definition nextCell :: "int \<Rightarrow> bool option \<Rightarrow> bool option" where
  "nextCell n cur = (if n = 2 then cur else if n = 3 then Some True else Some False)"

text \<open>\<open>bool nextWorld[ROWS][COLS] = { false }\<close>\<close>

definition emptyWorld :: grid where
  "emptyWorld = replicate (nat ROWS) (replicate (nat COLS) False)"

text \<open>The first loop nest: it reads \<open>world\<close> and writes \<open>nextWorld\<close>.\<close>

definition computeNext :: "grid \<Rightarrow> grid \<Rightarrow> grid option" where
  "computeNext w =
     for_loop [0..ROWS - 1] (\<lambda>r.
       for_loop [0..COLS - 1] (\<lambda>c nextWorld. do {
         n \<leftarrow> countNeighbors w r c;
         b \<leftarrow> nextCell n (cell w r c);
         put_cell nextWorld r c b
       }))"

text \<open>The second loop nest: \<open>world[r][c] = nextWorld[r][c]\<close>.\<close>

definition commitNext :: "grid \<Rightarrow> grid \<Rightarrow> grid option" where
  "commitNext nextWorld =
     for_loop [0..ROWS - 1] (\<lambda>r.
       for_loop [0..COLS - 1] (\<lambda>c w. do {
         b \<leftarrow> cell nextWorld r c;
         put_cell w r c b
       }))"

definition updateWorld :: "grid \<Rightarrow> grid option" where
  "updateWorld w = do {
     nextWorld \<leftarrow> computeNext w emptyWorld;
     commitNext nextWorld w
   }"

text \<open>\<open>n\<close> calls of \<open>updateWorld\<close>, one after the other.\<close>

fun generations :: "nat \<Rightarrow> grid \<Rightarrow> grid option" where
  "generations 0 w = Some w"
| "generations (Suc n) w = (case updateWorld w of None \<Rightarrow> None | Some w' \<Rightarrow> generations n w')"

subsection \<open>dispWorld\<close>

text \<open>The output of the sketch: the calls of \<open>digitalWrite\<close>, in order, as (pin, level).\<close>

type_synonym trace = "(int \<times> bool) list"

definition digitalWrite :: "int \<Rightarrow> bool \<Rightarrow> trace \<Rightarrow> trace" where
  "digitalWrite pin val tr = tr @ [(pin, val)]"

definition dispWorld :: "(nat \<Rightarrow> int) \<Rightarrow> grid \<Rightarrow> trace \<Rightarrow> trace option" where
  "dispWorld an w =
     for_loop [0..ROWS - 1] (\<lambda>r tr. do {
       rp \<leftarrow> index (row an) r;
       for_loop [0..COLS - 1] (\<lambda>c tr. do {
           b \<leftarrow> cell w r c;
           cp \<leftarrow> index (col an) c;
           Some (digitalWrite cp HIGH (if b then digitalWrite cp LOW tr else tr))
         }) (digitalWrite rp HIGH tr)
       \<bind> (\<lambda>tr. Some (digitalWrite rp LOW tr))
     })"

text \<open>
  The pin writes of \<open>setup\<close>: its loop sets every column HIGH and every row LOW.
  (\<open>pinMode\<close> changes no level; the random fill of \<open>world\<close> is not part of this model.)
\<close>

definition setup_pins :: "(nat \<Rightarrow> int) \<Rightarrow> trace \<Rightarrow> trace option" where
  "setup_pins an =
     for_loop [0..7] (\<lambda>i tr. do {
       cp \<leftarrow> index (col an) i;
       rp \<leftarrow> index (row an) i;
       Some (digitalWrite rp LOW (digitalWrite cp HIGH tr))
     })"

text \<open>The levels of the output pins, and the levels after a sequence of writes.\<close>

type_synonym pins = "int \<Rightarrow> bool"

definition pins_after :: "pins \<Rightarrow> trace \<Rightarrow> pins" where
  "pins_after s tr = foldl (\<lambda>s (pin, val). s(pin := val)) s tr"

subsection \<open>The sketch's state, the interrupt handlers and loop\<close>

record sketch =
  world :: grid
  lastTime :: "32 word"
  paused :: bool
  step :: bool

definition togglePause :: "sketch \<Rightarrow> sketch" where
  "togglePause s = s\<lparr>paused := \<not> paused s\<rparr>"

definition setStep :: "sketch \<Rightarrow> sketch" where
  "setStep s = (if paused s then s\<lparr>step := True\<rparr> else s)"

text \<open>
  One pass of \<open>loop\<close>. \<open>time\<close> is what \<open>millis()\<close> returns; \<open>delay(5)\<close> changes neither the
  state nor the pins. The result is the new state and the pin writes of the pass.
\<close>

definition loop :: "(nat \<Rightarrow> int) \<Rightarrow> 32 word \<Rightarrow> sketch \<Rightarrow> (sketch \<times> trace) option" where
  "loop an time s = do {
     s' \<leftarrow> (if time - lastTime s \<ge> 1000
            then do {
              w' \<leftarrow> updateWorld (world s);
              Some (s\<lparr>lastTime := time, world := w'\<rparr>)
            }
            else Some s);
     tr \<leftarrow> dispWorld an (world s') [];
     Some (s', tr)
   }"

subsection \<open>The classical rules\<close>

text \<open>
  The four rules of the header comment of main.ino, in its words and order; a dead cell
  that no rule names stays dead.
\<close>

definition canonical_rules :: "bool \<Rightarrow> int \<Rightarrow> bool" where
  "canonical_rules alive n =
     (if alive \<and> n < 2 then False
      else if alive \<and> (n = 2 \<or> n = 3) then True
      else if alive \<and> n > 3 then False
      else if \<not> alive \<and> n = 3 then True
      else False)"

subsection \<open>Auxiliary notions for the statements\<close>

text \<open>
  The neighbours of (r, c) on the torus, in the words of the specification: the eight
  coordinates ((r + dr) mod 8, (c + dc) mod 8) with dr, dc in {-1, 0, 1}, without (r, c)
  itself. This follows the specification, not the code; the code is \<open>countNeighbors\<close>.
\<close>

definition torus_neighbors :: "int \<Rightarrow> int \<Rightarrow> (int \<times> int) list" where
  "torus_neighbors r c =
     [((r + dr) mod ROWS, (c + dc) mod COLS).
        dr \<leftarrow> [- 1, 0, 1], dc \<leftarrow> [- 1, 0, 1], (dr, dc) \<noteq> (0, 0)]"

text \<open>The number of live cells of \<open>w\<close> at the coordinates \<open>ps\<close>.\<close>

definition live_among :: "grid \<Rightarrow> (int \<times> int) list \<Rightarrow> int" where
  "live_among w ps = (\<Sum>(y, x) \<leftarrow> ps. of_bool (cell w y x = Some True))"

text \<open>The five-cell glider, at the top left: (0,1), (1,2), (2,0), (2,1), (2,2).\<close>

definition glider :: grid where
  "glider =
    [[False, True,  False, False, False, False, False, False],
     [False, False, True,  False, False, False, False, False],
     [True,  True,  True,  False, False, False, False, False],
     [False, False, False, False, False, False, False, False],
     [False, False, False, False, False, False, False, False],
     [False, False, False, False, False, False, False, False],
     [False, False, False, False, False, False, False, False],
     [False, False, False, False, False, False, False, False]]"

text \<open>The next state of one cell, as the body of the first loop nest computes it.\<close>

definition next_state :: "grid \<Rightarrow> int \<Rightarrow> int \<Rightarrow> bool option" where
  "next_state w r c = do { n \<leftarrow> countNeighbors w r c; nextCell n (cell w r c) }"

text \<open>
  The pattern of \<open>w\<close> moved by \<open>dr\<close> rows and \<open>dc\<close> columns on the torus: the cell at
  (r, c) of the result is the cell at ((r - dr) mod 8, (c - dc) mod 8) of \<open>w\<close>.
\<close>

definition translate :: "int \<Rightarrow> int \<Rightarrow> grid \<Rightarrow> grid" where
  "translate dr dc w =
     map (\<lambda>r. map (\<lambda>c. cell w ((r - dr) mod ROWS) ((c - dc) mod COLS) = Some True) [0..COLS - 1])
       [0..ROWS - 1]"

text \<open>The 2x2 block, at the top left.\<close>

definition block :: grid where
  "block =
    [[True,  True,  False, False, False, False, False, False],
     [True,  True,  False, False, False, False, False, False],
     [False, False, False, False, False, False, False, False],
     [False, False, False, False, False, False, False, False],
     [False, False, False, False, False, False, False, False],
     [False, False, False, False, False, False, False, False],
     [False, False, False, False, False, False, False, False],
     [False, False, False, False, False, False, False, False]]"

text \<open>The glider one row down and one column to the right.\<close>

definition glider_moved :: grid where
  "glider_moved =
    [[False, False, False, False, False, False, False, False],
     [False, False, True,  False, False, False, False, False],
     [False, False, False, True,  False, False, False, False],
     [False, True,  True,  True,  False, False, False, False],
     [False, False, False, False, False, False, False, False],
     [False, False, False, False, False, False, False, False],
     [False, False, False, False, False, False, False, False],
     [False, False, False, False, False, False, False, False]]"

subsection \<open>Pin levels of the display\<close>

text \<open>The display is off: every row line LOW, every column line HIGH (as setup leaves them).\<close>

definition all_off :: "(nat \<Rightarrow> int) \<Rightarrow> pins \<Rightarrow> bool" where
  "all_off an s = ((\<forall>r \<in> {0..<8}. s (row an ! r) = LOW) \<and> (\<forall>c \<in> {0..<8}. s (col an ! c) = HIGH))"

text \<open>The LED of cell (r, c) is lit: its row line is HIGH and its column line is LOW.\<close>

definition lit :: "(nat \<Rightarrow> int) \<Rightarrow> pins \<Rightarrow> nat \<Rightarrow> nat \<Rightarrow> bool" where
  "lit an s r c = (s (row an ! r) = HIGH \<and> s (col an ! c) = LOW)"

text \<open>
  The pin levels are those of a correct scan: at most one row line is HIGH; when no row line
  is HIGH, every column line is HIGH; and a lit LED is that of a live cell.
\<close>

definition scan_ok :: "(nat \<Rightarrow> int) \<Rightarrow> grid \<Rightarrow> pins \<Rightarrow> bool" where
  "scan_ok an w s =
     ((\<forall>r \<in> {0..<8}. \<forall>r' \<in> {0..<8}. s (row an ! r) = HIGH \<and> s (row an ! r') = HIGH \<longrightarrow> r = r') \<and>
      ((\<forall>r \<in> {0..<8}. s (row an ! r) = LOW) \<longrightarrow> (\<forall>c \<in> {0..<8}. s (col an ! c) = HIGH)) \<and>
      (\<forall>r \<in> {0..<8}. \<forall>c \<in> {0..<8}. lit an s r c \<longrightarrow> cell w (int r) (int c) = Some True))"

text \<open>\<open>P\<close> holds of the pin levels before the first write of \<open>tr\<close> and after each of its writes.\<close>

definition at_every_point :: "(pins \<Rightarrow> bool) \<Rightarrow> pins \<Rightarrow> trace \<Rightarrow> bool" where
  "at_every_point P s tr = list_all (\<lambda>p. P (pins_after s p)) (prefixes tr)"

text \<open>Row \<open>r\<close> alone is HIGH and every column is HIGH.\<close>

definition row_active :: "(nat \<Rightarrow> int) \<Rightarrow> nat \<Rightarrow> pins \<Rightarrow> bool" where
  "row_active an r s =
     ((\<forall>r' \<in> {0..<8}. s (row an ! r') = (r' = r)) \<and> (\<forall>c \<in> {0..<8}. s (col an ! c) = HIGH))"

text \<open>Row \<open>r\<close> alone is HIGH and column \<open>c\<close> alone is LOW.\<close>

definition col_sinking :: "(nat \<Rightarrow> int) \<Rightarrow> nat \<Rightarrow> nat \<Rightarrow> pins \<Rightarrow> bool" where
  "col_sinking an r c s =
     ((\<forall>r' \<in> {0..<8}. s (row an ! r') = (r' = r)) \<and> (\<forall>c' \<in> {0..<8}. s (col an ! c') = (c' \<noteq> c)))"

text \<open>An instance of the parameter \<open>an\<close>: on the Arduino Mega 2560, A0 is pin 54.\<close>

definition mega :: "nat \<Rightarrow> int" where
  "mega k = 54 + int k"

text \<open>A grid with one live cell, at (0, 0).\<close>

definition lonely :: grid where
  "lonely =
    [[True,  False, False, False, False, False, False, False],
     [False, False, False, False, False, False, False, False],
     [False, False, False, False, False, False, False, False],
     [False, False, False, False, False, False, False, False],
     [False, False, False, False, False, False, False, False],
     [False, False, False, False, False, False, False, False],
     [False, False, False, False, False, False, False, False],
     [False, False, False, False, False, False, False, False]]"

section \<open>The rule\<close>

text \<open>
  C2. The three cases of the switch in updateWorld (2: unchanged, 3: alive, otherwise: dead)
  give, for a cell whose state is \<open>cur\<close>, the state the four classical rules give. This
  holds for every count \<open>n\<close>, so for every \<open>n\<close> in 0..8.
\<close>

theorem nextCell_canonical:
  "nextCell n (Some cur) = Some (canonical_rules cur n)"
  by (simp add: nextCell_def canonical_rules_def)

section \<open>Arrays, indices and loops\<close>

lemma upto3: "[r - 1..r + 1] = [r - 1, r, r + 1]"
  by (simp add: upto_rec1)

lemma wf_world_length: "wf_world w \<Longrightarrow> length w = 8"
  by (simp add: wf_world_def)

lemma wf_world_row: "wf_world w \<Longrightarrow> i < 8 \<Longrightarrow> length (w ! i) = 8"
  by (simp add: wf_world_def list_all_length)

lemma cell_Some:
  "wf_world w \<Longrightarrow> 0 \<le> y \<Longrightarrow> y < 8 \<Longrightarrow> 0 \<le> x \<Longrightarrow> x < 8 \<Longrightarrow>
   cell w y x = Some (w ! nat y ! nat x)"
  by (simp add: cell_def index_def wf_world_length wf_world_row)

lemma for_loop_inv:
  assumes "I pre s"
    and "\<And>pre i s. I pre s \<Longrightarrow> i \<in> set is \<Longrightarrow> \<exists>s'. body i s = Some s' \<and> I (pre @ [i]) s'"
  shows "\<exists>s'. for_loop is body s = Some s' \<and> I (pre @ is) s'"
  using assms
proof (induction "is" arbitrary: pre s)
  case Nil
  then show ?case by simp
next
  case (Cons i "is")
  from Cons.prems obtain s1 where s1: "body i s = Some s1" "I (pre @ [i]) s1"
    by (meson list.set_intros(1))
  have "\<exists>s'. for_loop is body s1 = Some s' \<and> I ((pre @ [i]) @ is) s'"
    by (rule Cons.IH [OF s1(2)]) (simp add: Cons.prems(2))
  with s1 show ?case by simp
qed

lemma c_rem_nonneg: "0 \<le> i \<Longrightarrow> 0 < n \<Longrightarrow> c_rem i n = i mod n"
  by (cases "i = 0") (simp_all add: c_rem_def)

lemma wrap_index_mod: "- 1 \<le> i \<Longrightarrow> 0 < n \<Longrightarrow> wrap_index i n = i mod n"
proof (cases "0 \<le> i")
  case True
  assume "0 < n"
  with True show ?thesis
    by (simp add: wrap_index_def c_rem_nonneg)
next
  case False
  assume "- 1 \<le> i" "0 < n"
  with False have "i = - 1" by simp
  with \<open>0 < n\<close> show ?thesis
    by (simp add: wrap_index_def zmod_minus1)
qed

lemma wrap_index_range: "0 < n \<Longrightarrow> 0 \<le> wrap_index i n \<and> wrap_index i n < n"
  by (cases "0 \<le> i") (simp_all add: wrap_index_def c_rem_nonneg)

lemma put_cell_Some:
  "wf_world w \<Longrightarrow> 0 \<le> y \<Longrightarrow> y < 8 \<Longrightarrow> 0 \<le> x \<Longrightarrow> x < 8 \<Longrightarrow>
   put_cell w y x b = Some (w[nat y := (w ! nat y)[nat x := b]])"
  by (simp add: put_cell_def index_def wf_world_length wf_world_row)

lemma put_cell_eq:
  "put_cell w y x b = Some w' \<Longrightarrow>
   0 \<le> y \<and> nat y < length w \<and> 0 \<le> x \<and> nat x < length (w ! nat y) \<and>
   w' = w[nat y := (w ! nat y)[nat x := b]]"
  by (auto simp add: put_cell_def index_def nat_less_iff split: if_splits)

lemma put_cell_wf:
  assumes "put_cell w y x b = Some w'" "wf_world w"
  shows "wf_world w'"
proof -
  from put_cell_eq [OF assms(1)]
  have w': "w' = w[nat y := (w ! nat y)[nat x := b]]" and y: "nat y < length w" by simp_all
  from assms(2) have "\<forall>i<length w. length (w ! i) = 8" "length w = 8"
    by (simp_all add: wf_world_def list_all_length)
  with y show ?thesis
    by (simp add: wf_world_def list_all_length w' nth_list_update)
qed

lemma index_list_update:
  "index (xs[k := v]) i =
     (if 0 \<le> i \<and> i < int (length xs) then Some (if nat i = k then v else xs ! nat i) else None)"
  by (auto simp add: index_def nat_less_iff)

lemma cell_put_cell:
  assumes "put_cell w y x b = Some w'"
  shows "cell w' y' x' = (if y' = y \<and> x' = x then Some b else cell w y' x')"
proof -
  from put_cell_eq [OF assms]
  have w': "w' = w[nat y := (w ! nat y)[nat x := b]]" and y: "0 \<le> y" "nat y < length w"
    and x: "0 \<le> x" "nat x < length (w ! nat y)" by simp_all
  show ?thesis
  proof (cases "0 \<le> y' \<and> y' < int (length w)")
    case False
    with y have "y' \<noteq> y" by (auto simp add: nat_less_iff)
    moreover from False have "index w' y' = None" "index w y' = None"
      by (auto simp add: index_def w')
    ultimately show ?thesis by (simp add: cell_def)
  next
    case inr: True
    show ?thesis
    proof (cases "y' = y")
      case True
      have "cell w' y' x' = index ((w ! nat y)[nat x := b]) x'"
        using inr True by (simp add: cell_def index_list_update w')
      also have "\<dots> = (if x' = x then Some b else index (w ! nat y) x')"
        using x by (auto simp add: index_list_update nat_less_iff) (simp_all add: index_def)
      also have "\<dots> = (if y' = y \<and> x' = x then Some b else cell w y' x')"
        using inr True by (simp add: cell_def) (simp add: index_def)
      finally show ?thesis .
    next
      case False
      with inr y have "nat y' \<noteq> nat y" by linarith
      with inr False show ?thesis
        by (simp add: cell_def index_list_update w') (simp add: index_def)
    qed
  qed
qed

section \<open>The neighbour count\<close>

lemma torus_neighbors_eq:
  "torus_neighbors r c =
    [((r - 1) mod 8, (c - 1) mod 8), ((r - 1) mod 8, c mod 8), ((r - 1) mod 8, (c + 1) mod 8),
     (r mod 8, (c - 1) mod 8), (r mod 8, (c + 1) mod 8),
     ((r + 1) mod 8, (c - 1) mod 8), ((r + 1) mod 8, c mod 8), ((r + 1) mod 8, (c + 1) mod 8)]"
  by (simp add: torus_neighbors_def)

lemma cell_mod:
  "wf_world w \<Longrightarrow> cell w (y mod 8) (x mod 8) = Some (w ! nat (y mod 8) ! nat (x mod 8))"
  by (rule cell_Some) simp_all

lemma countNeighbors_eq:
  assumes "wf_world w" "0 \<le> r" "r < 8" "0 \<le> c" "c < 8"
  shows "countNeighbors w r c = Some (live_among w (torus_neighbors r c))"
proof -
  have wr: "wrap_index (r - 1) 8 = (r - 1) mod 8" "wrap_index r 8 = r mod 8"
    "wrap_index (r + 1) 8 = (r + 1) mod 8"
    using assms by (simp_all add: wrap_index_mod)
  have wc: "wrap_index (c - 1) 8 = (c - 1) mod 8" "wrap_index c 8 = c mod 8"
    "wrap_index (c + 1) 8 = (c + 1) mod 8"
    using assms by (simp_all add: wrap_index_mod)
  show ?thesis
    unfolding countNeighbors_def upto3 torus_neighbors_eq live_among_def
    by (simp add: wr wc cell_mod [OF assms(1)] Let_def)
qed

lemma mod8_neighbours:
  "0 \<le> r \<Longrightarrow> r < 8 \<Longrightarrow>
   r mod 8 = r \<and> (r - 1) mod 8 \<noteq> r \<and> (r + 1) mod 8 \<noteq> r \<and> (r - 1) mod 8 \<noteq> (r + 1) mod 8"
  for r :: int
proof -
  assume "0 \<le> r" "r < 8"
  then have "r = 0 \<or> r = 1 \<or> r = 2 \<or> r = 3 \<or> r = 4 \<or> r = 5 \<or> r = 6 \<or> r = 7"
    by arith
  then show ?thesis
    by (elim disjE) simp_all
qed

lemma torus_neighbors_self:
  assumes "0 \<le> r" "r < 8" "0 \<le> c" "c < 8"
  shows "(r, c) \<notin> set (torus_neighbors r c)"
  using mod8_neighbours [OF assms(1,2)] mod8_neighbours [OF assms(3,4)]
  by (simp add: torus_neighbors_eq)

lemma torus_neighbors_distinct:
  assumes "0 \<le> r" "r < 8" "0 \<le> c" "c < 8"
  shows "distinct (torus_neighbors r c)"
  using mod8_neighbours [OF assms(1,2)] mod8_neighbours [OF assms(3,4)]
  by (simp add: torus_neighbors_eq)

lemma live_among_Cons:
  "live_among w ((y, x) # ps) = of_bool (cell w y x = Some True) + live_among w ps"
  by (simp add: live_among_def)
lemma live_among_Nil: "live_among w [] = 0"
  by (simp add: live_among_def)
lemma live_among_bounds: "0 \<le> live_among w ps \<and> live_among w ps \<le> int (length ps)"
proof (induction ps)
  case Nil
  show ?case by (simp add: live_among_Nil)
next
  case (Cons p ps)
  obtain y x where p: "p = (y, x)" by (cases p)
  have "0 \<le> (of_bool (cell w y x = Some True) :: int)" "(of_bool (cell w y x = Some True) :: int) \<le> 1"
    by simp_all
  with Cons show ?case unfolding p live_among_Cons by simp
qed
lemma live_among_cong:
  "(\<And>y x. (y, x) \<in> set ps \<Longrightarrow> cell w' y x = cell w y x) \<Longrightarrow>
   live_among w' ps = live_among w ps"
proof (induction ps)
  case Nil
  show ?case by (simp add: live_among_Nil)
next
  case (Cons p ps)
  obtain y x where p: "p = (y, x)" by (cases p)
  have "cell w' y x = cell w y x" by (rule Cons.prems) (simp add: p)
  moreover have "live_among w' ps = live_among w ps"
    by (rule Cons.IH) (simp add: Cons.prems)
  ultimately show ?case unfolding p live_among_Cons by simp
qed

lemma torus_neighbors_length: "length (torus_neighbors r c) = 8"
  by (simp add: torus_neighbors_eq)

lemma countNeighbors_put_cell:
  assumes "wf_world w" "0 \<le> r" "r < 8" "0 \<le> c" "c < 8" "put_cell w r c b = Some w'"
  shows "countNeighbors w' r c = countNeighbors w r c"
proof -
  have "wf_world w'" using assms(6,1) by (rule put_cell_wf)
  moreover have "live_among w' (torus_neighbors r c) = live_among w (torus_neighbors r c)"
  proof (rule live_among_cong)
    fix y x assume "(y, x) \<in> set (torus_neighbors r c)"
    with torus_neighbors_self [OF assms(2-5)] have "\<not> (y = r \<and> x = c)" by auto
    then show "cell w' y x = cell w y x"
      by (auto simp add: cell_put_cell [OF assms(6)])
  qed
  ultimately show ?thesis
    using assms(1-5) by (simp add: countNeighbors_eq)
qed

lemma wf_world_glider: "wf_world glider"
  by (simp add: wf_world_def glider_def)

text \<open>
  C4. The neighbour count is toroidal. For every 8x8 grid, \<open>countNeighbors(0, 0)\<close> is the
  number of live cells among (7,7), (7,0), (7,1), (0,7), (0,1), (1,7), (1,0) and (1,1); the
  wrap expression sends -1 to 7 and 8 to 0; and for every (r, c) in the grid the count is the
  number of live cells at the eight coordinates ((r + dr) mod 8, (c + dc) mod 8), with
  dr, dc in {-1, 0, 1} and not both 0: eight different cells, none of them (r, c).
\<close>

theorem countNeighbors_toroidal:
  assumes "wf_world w"
  shows "countNeighbors w 0 0 =
           Some (live_among w [(7, 7), (7, 0), (7, 1), (0, 7), (0, 1), (1, 7), (1, 0), (1, 1)])
       \<and> wrap_index (- 1) ROWS = 7 \<and> wrap_index ROWS ROWS = 0
       \<and> wrap_index (- 1) COLS = 7 \<and> wrap_index COLS COLS = 0
       \<and> (\<forall>r c. 0 \<le> r \<and> r < ROWS \<and> 0 \<le> c \<and> c < COLS \<longrightarrow>
             countNeighbors w r c = Some (live_among w (torus_neighbors r c))
           \<and> length (torus_neighbors r c) = 8 \<and> distinct (torus_neighbors r c)
           \<and> (r, c) \<notin> set (torus_neighbors r c))"
proof -
  have "countNeighbors w 0 0 = Some (live_among w (torus_neighbors 0 0))"
    using assms by (simp add: countNeighbors_eq)
  moreover have "torus_neighbors 0 0 = [(7, 7), (7, 0), (7, 1), (0, 7), (0, 1), (1, 7), (1, 0), (1, 1)]"
    by (simp add: torus_neighbors_eq)
  moreover have "wrap_index (- 1) 8 = 7" "wrap_index 8 8 = 0"
    by (simp_all add: wrap_index_def c_rem_def)
  ultimately show ?thesis
    using assms
    by (simp add: countNeighbors_eq torus_neighbors_length torus_neighbors_distinct
        torus_neighbors_self)
qed

theorem countNeighbors_toroidal_witness:
  "wf_world glider \<and> countNeighbors glider 0 0 = Some 1 \<and> countNeighbors glider 7 7 = Some 0
   \<and> countNeighbors glider 7 1 = Some 1 \<and> torus_neighbors 7 7 =
      [(6, 6), (6, 7), (6, 0), (7, 6), (7, 0), (0, 6), (0, 7), (0, 0)]"
proof -
  have "live_among glider [(7, 7), (7, 0), (7, 1), (0, 7), (0, 1), (1, 7), (1, 0), (1, 1)] = 1"
    by (simp add: live_among_def glider_def cell_def index_def)
  moreover have "torus_neighbors 7 7 = [(6, 6), (6, 7), (6, 0), (7, 6), (7, 0), (0, 6), (0, 7), (0, 0)]"
    "torus_neighbors 7 1 = [(6, 0), (6, 1), (6, 2), (7, 0), (7, 2), (0, 0), (0, 1), (0, 2)]"
    by (simp_all add: torus_neighbors_eq)
  moreover have "live_among glider [(6, 6), (6, 7), (6, 0), (7, 6), (7, 0), (0, 6), (0, 7), (0, 0)] = 0"
    "live_among glider [(6, 0), (6, 1), (6, 2), (7, 0), (7, 2), (0, 0), (0, 1), (0, 2)] = 1"
    by (simp_all add: live_among_def glider_def cell_def index_def)
  ultimately show ?thesis
    using countNeighbors_toroidal [OF wf_world_glider] wf_world_glider by simp
qed

text \<open>
  C5. For every 8x8 grid and every (r, c) in it, \<open>countNeighbors(r, c)\<close> returns a count
  between 0 and 8, and the count does not depend on the cell (r, c) itself: writing any value
  into \<open>world[r][c]\<close> leaves it as it is.
\<close>

theorem countNeighbors_range:
  assumes "wf_world w" "0 \<le> r" "r < ROWS" "0 \<le> c" "c < COLS"
  shows "\<exists>n. countNeighbors w r c = Some n \<and> 0 \<le> n \<and> n \<le> 8
           \<and> (\<forall>b w'. put_cell w r c b = Some w' \<longrightarrow> countNeighbors w' r c = Some n)"
proof -
  let ?n = "live_among w (torus_neighbors r c)"
  have "countNeighbors w r c = Some ?n"
    using assms by (rule countNeighbors_eq)
  moreover have "0 \<le> ?n \<and> ?n \<le> 8"
    using live_among_bounds [of w "torus_neighbors r c"] by (simp add: torus_neighbors_length)
  moreover have "\<forall>b w'. put_cell w r c b = Some w' \<longrightarrow> countNeighbors w' r c = Some ?n"
    using assms calculation(1) by (simp add: countNeighbors_put_cell)
  ultimately show ?thesis by blast
qed

theorem countNeighbors_range_witness:
  "wf_world glider \<and> (0::int) \<le> 2 \<and> (2::int) < ROWS \<and> (0::int) \<le> 1 \<and> (1::int) < COLS \<and>
   (\<exists>n. countNeighbors glider 2 1 = Some n \<and> 0 \<le> n \<and> n \<le> 8
           \<and> (\<forall>b w'. put_cell glider 2 1 b = Some w' \<longrightarrow> countNeighbors w' 2 1 = Some n))"
  using countNeighbors_range [OF wf_world_glider, of 2 1] wf_world_glider by simp

text \<open>
  C10. For 0 <= r <= 7 and 0 <= c <= 7, every index that \<open>countNeighbors(r, c)\<close> computes
  with \<open>i >= 0 ? i % ROWS : ROWS - 1\<close>, for i among r - 1, r, r + 1 (and likewise for the
  columns), lies in 0..7, every read \<open>world[y][x]\<close> is inside the array, and the call
  returns a count: the out-of-bounds branch of the model is not taken.
\<close>

theorem countNeighbors_in_bounds:
  assumes "wf_world w" "0 \<le> r" "r \<le> 7" "0 \<le> c" "c \<le> 7"
  shows "(\<forall>i \<in> {r - 1, r, r + 1}. \<forall>j \<in> {c - 1, c, c + 1}.
            0 \<le> wrap_index i ROWS \<and> wrap_index i ROWS \<le> 7
          \<and> 0 \<le> wrap_index j COLS \<and> wrap_index j COLS \<le> 7
          \<and> cell w (wrap_index i ROWS) (wrap_index j COLS) \<noteq> None)
       \<and> countNeighbors w r c \<noteq> None"
proof -
  have "0 \<le> wrap_index i 8 \<and> wrap_index i 8 \<le> 7" for i
    using wrap_index_range [of 8 i] by simp
  moreover have "cell w (wrap_index i 8) (wrap_index j 8) \<noteq> None" for i j
    using wrap_index_range [of 8 i] wrap_index_range [of 8 j] assms(1)
    by (simp add: cell_Some)
  moreover have "countNeighbors w r c \<noteq> None"
    using assms by (simp add: countNeighbors_eq)
  ultimately show ?thesis by simp
qed

theorem countNeighbors_in_bounds_witness:
  "wf_world glider \<and> (0::int) \<le> 7 \<and> (7::int) \<le> 7 \<and> (0::int) \<le> 0 \<and>
   wrap_index (7 + 1) ROWS = 0 \<and> wrap_index (0 - 1) COLS = 7 \<and>
   cell glider (wrap_index (7 + 1) ROWS) (wrap_index (0 - 1) COLS) \<noteq> None \<and>
   countNeighbors glider 7 0 \<noteq> None"
proof -
  have "wrap_index (7 + 1) 8 = 0" "wrap_index (0 - 1) 8 = 7"
    by (simp_all add: wrap_index_def c_rem_def)
  then show ?thesis
    using countNeighbors_in_bounds [OF wf_world_glider, of 7 0] wf_world_glider by simp
qed

section \<open>One generation\<close>

lemma fill_row:
  assumes wf: "wf_world s0" and r: "0 \<le> r" "r < 8"
    and F: "\<And>c. c \<in> set cs \<Longrightarrow> 0 \<le> c \<and> c < 8 \<and> F c \<noteq> None"
  shows "\<exists>s'. for_loop cs (\<lambda>c s. F c \<bind> put_cell s r c) s0 = Some s' \<and> wf_world s' \<and>
           (\<forall>y x. cell s' y x = (if y = r \<and> x \<in> set cs then F x else cell s0 y x))"
proof -
  let ?I = "\<lambda>pre s. wf_world s \<and>
     (\<forall>y x. cell s y x = (if y = r \<and> x \<in> set pre then F x else cell s0 y x))"
  have "\<exists>s'. for_loop cs (\<lambda>c s. F c \<bind> put_cell s r c) s0 = Some s' \<and> ?I ([] @ cs) s'"
  proof (rule for_loop_inv [where I = ?I])
    show "?I [] s0" using wf by simp
  next
    fix pre c s
    assume I: "?I pre s" and c: "c \<in> set cs"
    from F [OF c] obtain b where b: "F c = Some b" and cr: "0 \<le> c" "c < 8" by auto
    from I have wfs: "wf_world s" by simp
    let ?s' = "s[nat r := (s ! nat r)[nat c := b]]"
    have put: "put_cell s r c b = Some ?s'"
      using wfs r cr by (rule put_cell_Some)
    have "wf_world ?s'" using put wfs by (rule put_cell_wf)
    moreover have "\<forall>y x. cell ?s' y x = (if y = r \<and> x \<in> set (pre @ [c]) then F x else cell s0 y x)"
      using I b by (auto simp add: cell_put_cell [OF put])
    ultimately show "\<exists>s'. F c \<bind> put_cell s r c = Some s' \<and> ?I (pre @ [c]) s'"
      using b put by simp
  qed
  then show ?thesis by simp
qed

lemma fill_grid:
  assumes wf: "wf_world s0"
    and F: "\<And>r c. r \<in> set rs \<Longrightarrow> c \<in> set cs \<Longrightarrow> F r c \<noteq> None"
    and rs: "\<And>r. r \<in> set rs \<Longrightarrow> 0 \<le> r \<and> r < 8"
    and cs: "\<And>c. c \<in> set cs \<Longrightarrow> 0 \<le> c \<and> c < 8"
  shows "\<exists>s'. for_loop rs (\<lambda>r. for_loop cs (\<lambda>c s. F r c \<bind> put_cell s r c)) s0 = Some s' \<and>
           wf_world s' \<and>
           (\<forall>y x. cell s' y x = (if y \<in> set rs \<and> x \<in> set cs then F y x else cell s0 y x))"
proof -
  let ?I = "\<lambda>pre s. wf_world s \<and>
     (\<forall>y x. cell s y x = (if y \<in> set pre \<and> x \<in> set cs then F y x else cell s0 y x))"
  have "\<exists>s'. for_loop rs (\<lambda>r. for_loop cs (\<lambda>c s. F r c \<bind> put_cell s r c)) s0 = Some s' \<and>
          ?I ([] @ rs) s'"
  proof (rule for_loop_inv [where I = ?I])
    show "?I [] s0" using wf by simp
  next
    fix pre r s
    assume I: "?I pre s" and r: "r \<in> set rs"
    from I have wfs: "wf_world s" by simp
    from rs [OF r] have r8: "0 \<le> r" "r < 8" by simp_all
    have "\<exists>s'. for_loop cs (\<lambda>c s. F r c \<bind> put_cell s r c) s = Some s' \<and> wf_world s' \<and>
           (\<forall>y x. cell s' y x = (if y = r \<and> x \<in> set cs then F r x else cell s y x))"
      using wfs r8 by (rule fill_row) (simp add: cs F [OF r])
    then obtain s' where s': "for_loop cs (\<lambda>c s. F r c \<bind> put_cell s r c) s = Some s'"
      "wf_world s'" "\<forall>y x. cell s' y x = (if y = r \<and> x \<in> set cs then F r x else cell s y x)"
      by blast
    have "\<forall>y x. cell s' y x = (if y \<in> set (pre @ [r]) \<and> x \<in> set cs then F y x else cell s0 y x)"
      using I s'(3) by auto
    with s'(1,2)
    show "\<exists>s'. for_loop cs (\<lambda>c s. F r c \<bind> put_cell s r c) s = Some s' \<and> ?I (pre @ [r]) s'"
      by simp
  qed
  then show ?thesis by simp
qed

lemma grid_eqI:
  assumes "wf_world w" "wf_world w'"
    and "\<And>y x. 0 \<le> y \<Longrightarrow> y < 8 \<Longrightarrow> 0 \<le> x \<Longrightarrow> x < 8 \<Longrightarrow> cell w y x = cell w' y x"
  shows "w = w'"
proof (rule nth_equalityI)
  show "length w = length w'" using assms(1,2) by (simp add: wf_world_length)
next
  fix i assume "i < length w"
  then have i: "i < 8" using assms(1) by (simp add: wf_world_length)
  show "w ! i = w' ! i"
  proof (rule nth_equalityI)
    show "length (w ! i) = length (w' ! i)"
      using assms(1,2) i by (simp add: wf_world_row)
  next
    fix j assume "j < length (w ! i)"
    then have j: "j < 8" using assms(1) i by (simp add: wf_world_row)
    have "cell w (int i) (int j) = cell w' (int i) (int j)"
      using i j by (intro assms(3)) simp_all
    then show "w ! i ! j = w' ! i ! j"
      using i j assms(1,2) by (simp add: cell_Some)
  qed
qed

lemma wf_world_emptyWorld: "wf_world emptyWorld"
  by (simp add: wf_world_def emptyWorld_def list_all_length)

lemma next_state_Some:
  "wf_world w \<Longrightarrow> 0 \<le> r \<Longrightarrow> r < 8 \<Longrightarrow> 0 \<le> c \<Longrightarrow> c < 8 \<Longrightarrow> next_state w r c \<noteq> None"
  by (auto simp add: next_state_def countNeighbors_eq cell_Some nextCell_def)

lemma computeNext_eq:
  "computeNext w = for_loop [0..7] (\<lambda>r. for_loop [0..7] (\<lambda>c s. next_state w r c \<bind> put_cell s r c))"
  by (simp add: computeNext_def next_state_def)

lemma commitNext_eq:
  "commitNext nw = for_loop [0..7] (\<lambda>r. for_loop [0..7] (\<lambda>c s. cell nw r c \<bind> put_cell s r c))"
  by (simp add: commitNext_def)

lemma computeNext_cells:
  assumes "wf_world w"
  shows "\<exists>nw. computeNext w emptyWorld = Some nw \<and> wf_world nw \<and>
           (\<forall>r c. 0 \<le> r \<and> r < 8 \<and> 0 \<le> c \<and> c < 8 \<longrightarrow> cell nw r c = next_state w r c)"
proof -
  have "\<exists>nw. computeNext w emptyWorld = Some nw \<and> wf_world nw \<and>
          (\<forall>y x. cell nw y x =
             (if y \<in> set [0..7] \<and> x \<in> set [0..7] then next_state w y x else cell emptyWorld y x))"
    unfolding computeNext_eq
    using wf_world_emptyWorld
    by (rule fill_grid) (simp_all add: next_state_Some [OF assms])
  then show ?thesis by auto
qed

lemma updateWorld_cells:
  assumes "wf_world w"
  shows "\<exists>w'. updateWorld w = Some w' \<and> wf_world w' \<and>
           (\<forall>r c. 0 \<le> r \<and> r < 8 \<and> 0 \<le> c \<and> c < 8 \<longrightarrow> cell w' r c = next_state w r c)"
proof -
  have "\<exists>nw. computeNext w emptyWorld = Some nw \<and> wf_world nw \<and>
          (\<forall>y x. cell nw y x =
             (if y \<in> set [0..7] \<and> x \<in> set [0..7] then next_state w y x else cell emptyWorld y x))"
    unfolding computeNext_eq
    using wf_world_emptyWorld
    by (rule fill_grid) (simp_all add: next_state_Some [OF assms])
  then obtain nw where nw: "computeNext w emptyWorld = Some nw" "wf_world nw"
    "\<forall>y x. cell nw y x =
       (if y \<in> set [0..7] \<and> x \<in> set [0..7] then next_state w y x else cell emptyWorld y x)"
    by blast
  have "\<exists>w'. commitNext nw w = Some w' \<and> wf_world w' \<and>
          (\<forall>y x. cell w' y x =
             (if y \<in> set [0..7] \<and> x \<in> set [0..7] then cell nw y x else cell w y x))"
    unfolding commitNext_eq
    using assms
    by (rule fill_grid) (simp_all add: cell_Some [OF nw(2)])
  then obtain w' where w': "commitNext nw w = Some w'" "wf_world w'"
    "\<forall>y x. cell w' y x =
       (if y \<in> set [0..7] \<and> x \<in> set [0..7] then cell nw y x else cell w y x)"
    by blast
  have "updateWorld w = Some w'"
    by (simp add: updateWorld_def nw(1) w'(1))
  moreover have "\<forall>r c. 0 \<le> r \<and> r < 8 \<and> 0 \<le> c \<and> c < 8 \<longrightarrow> cell w' r c = next_state w r c"
    using nw(3) w'(3) by simp
  ultimately show ?thesis using w'(2) by blast
qed

lemma next_state_eq:
  assumes "wf_world w" "0 \<le> r" "r < 8" "0 \<le> c" "c < 8"
  shows "next_state w r c = nextCell (live_among w (torus_neighbors r c)) (cell w r c)"
  using assms by (simp add: next_state_def countNeighbors_eq)

lemma updateWorld_buffer:
  assumes "wf_world w"
  shows "\<exists>nw. computeNext w emptyWorld = Some nw \<and> updateWorld w = Some nw \<and> wf_world nw"
proof -
  from updateWorld_cells [OF assms]
  obtain w' where w': "updateWorld w = Some w'" "wf_world w'"
    "\<And>r c. 0 \<le> r \<Longrightarrow> r < 8 \<Longrightarrow> 0 \<le> c \<Longrightarrow> c < 8 \<Longrightarrow> cell w' r c = next_state w r c"
    by auto
  from computeNext_cells [OF assms]
  obtain nw where nw: "computeNext w emptyWorld = Some nw" "wf_world nw"
    "\<And>r c. 0 \<le> r \<Longrightarrow> r < 8 \<Longrightarrow> 0 \<le> c \<Longrightarrow> c < 8 \<Longrightarrow> cell nw r c = next_state w r c"
    by auto
  have "w' = nw"
    using w'(2) nw(2) by (rule grid_eqI) (simp add: w'(3) nw(3))
  with w' nw show ?thesis by simp
qed

text \<open>
  C3. One call of \<open>updateWorld\<close> on an 8x8 grid returns, and the grid it leaves in \<open>world\<close>
  is the buffer \<open>nextWorld\<close> that the first loop nest has filled from the grid as it was
  before the call: every cell of the new grid is the switch of \<open>updateWorld\<close> applied to the
  neighbour count and the state of that cell in the old grid. No cell is computed from a cell
  already updated.
\<close>

theorem updateWorld_next_generation:
  assumes "wf_world w"
  shows "\<exists>w'. updateWorld w = Some w' \<and> computeNext w emptyWorld = Some w' \<and> wf_world w' \<and>
           (\<forall>r c. 0 \<le> r \<and> r < ROWS \<and> 0 \<le> c \<and> c < COLS \<longrightarrow>
              cell w' r c = next_state w r c \<and>
              cell w' r c = nextCell (live_among w (torus_neighbors r c)) (cell w r c) \<and>
              cell w' r c \<noteq> None)"
proof -
  from updateWorld_buffer [OF assms]
  obtain w' where w': "computeNext w emptyWorld = Some w'" "updateWorld w = Some w'" "wf_world w'"
    by blast
  from updateWorld_cells [OF assms] w'(2)
  have cells: "\<forall>r c. 0 \<le> r \<and> r < 8 \<and> 0 \<le> c \<and> c < 8 \<longrightarrow> cell w' r c = next_state w r c"
    by simp
  have "cell w' r c = next_state w r c \<and>
        cell w' r c = nextCell (live_among w (torus_neighbors r c)) (cell w r c) \<and>
        cell w' r c \<noteq> None"
    if "0 \<le> r \<and> r < 8 \<and> 0 \<le> c \<and> c < 8" for r c
  proof -
    from that have rc: "0 \<le> r" "r < 8" "0 \<le> c" "c < 8" by simp_all
    from cells that have "cell w' r c = next_state w r c" by blast
    moreover note next_state_eq [OF assms rc] next_state_Some [OF assms rc]
    ultimately show ?thesis by simp
  qed
  with w' show ?thesis by blast
qed

theorem updateWorld_next_generation_witness:
  "wf_world glider \<and>
   (\<exists>w'. updateWorld glider = Some w' \<and> computeNext glider emptyWorld = Some w' \<and>
      cell w' 1 0 = next_state glider 1 0 \<and> next_state glider 1 0 = Some True \<and>
      cell glider 1 0 = Some False)"
proof -
  have "next_state glider 1 0 = Some True"
    by code_simp
  moreover have "cell glider 1 0 = Some False"
    by (simp add: cell_def index_def glider_def)
  ultimately show ?thesis
    using updateWorld_next_generation [OF wf_world_glider] wf_world_glider by auto
qed

section \<open>Translations of the torus\<close>

lemma wf_world_block: "wf_world block"
  by (simp add: wf_world_def block_def)

lemma wf_world_translate: "wf_world (translate dr dc w)"
  by (simp add: wf_world_def translate_def list_all_length)

lemma nth_upto8: "0 \<le> y \<Longrightarrow> y < 8 \<Longrightarrow> [0..7] ! nat y = y"
  by (simp add: nth_upto)

lemma cell_translate:
  assumes "wf_world w" "0 \<le> y" "y < 8" "0 \<le> x" "x < 8"
  shows "cell (translate dr dc w) y x = cell w ((y - dr) mod 8) ((x - dc) mod 8)"
proof -
  have "cell (translate dr dc w) y x = Some (translate dr dc w ! nat y ! nat x)"
    using wf_world_translate assms(2-5) by (rule cell_Some)
  also have "translate dr dc w ! nat y ! nat x
      = (cell w ((y - dr) mod 8) ((x - dc) mod 8) = Some True)"
    using assms(2-5) by (simp add: translate_def) (simp add: nth_upto8)
  also have "Some (cell w ((y - dr) mod 8) ((x - dc) mod 8) = Some True)
      = cell w ((y - dr) mod 8) ((x - dc) mod 8)"
    by (simp add: cell_mod [OF assms(1)])
  finally show ?thesis .
qed

lemma cell_translate_mod:
  assumes "wf_world w"
  shows "cell (translate dr dc w) (y mod 8) (x mod 8) = cell w ((y - dr) mod 8) ((x - dc) mod 8)"
  using assms by (simp add: cell_translate mod_diff_left_eq)

lemma live_among_translate:
  assumes "wf_world w"
  shows "live_among (translate dr dc w) (torus_neighbors r c)
       = live_among w (torus_neighbors ((r - dr) mod 8) ((c - dc) mod 8))"
  unfolding torus_neighbors_eq live_among_def
  by (simp add: cell_translate_mod [OF assms] mod_simps algebra_simps)

lemma next_state_translate:
  assumes "wf_world w" "0 \<le> r" "r < 8" "0 \<le> c" "c < 8"
  shows "next_state (translate dr dc w) r c = next_state w ((r - dr) mod 8) ((c - dc) mod 8)"
proof -
  have "countNeighbors (translate dr dc w) r c
      = Some (live_among (translate dr dc w) (torus_neighbors r c))"
    using wf_world_translate assms(2-5) by (rule countNeighbors_eq)
  moreover have "countNeighbors w ((r - dr) mod 8) ((c - dc) mod 8)
      = Some (live_among w (torus_neighbors ((r - dr) mod 8) ((c - dc) mod 8)))"
    using assms(1) by (rule countNeighbors_eq) simp_all
  ultimately show ?thesis
    using assms by (simp add: next_state_def live_among_translate cell_translate)
qed

lemma updateWorld_translate:
  assumes "wf_world w" "updateWorld w = Some w'"
  shows "updateWorld (translate dr dc w) = Some (translate dr dc w')"
proof -
  from updateWorld_cells [OF assms(1)] assms(2)
  have w': "wf_world w'"
    "\<And>r c. 0 \<le> r \<Longrightarrow> r < 8 \<Longrightarrow> 0 \<le> c \<Longrightarrow> c < 8 \<Longrightarrow> cell w' r c = next_state w r c"
    by auto
  from updateWorld_cells [OF wf_world_translate, of dr dc w]
  obtain t where t: "updateWorld (translate dr dc w) = Some t" "wf_world t"
    "\<And>r c. 0 \<le> r \<Longrightarrow> r < 8 \<Longrightarrow> 0 \<le> c \<Longrightarrow> c < 8 \<Longrightarrow> cell t r c = next_state (translate dr dc w) r c"
    by auto
  have "t = translate dr dc w'"
  proof (rule grid_eqI [OF t(2) wf_world_translate])
    fix y x :: int
    assume yx: "0 \<le> y" "y < 8" "0 \<le> x" "x < 8"
    have "cell t y x = next_state w ((y - dr) mod 8) ((x - dc) mod 8)"
      using yx by (simp add: t(3) next_state_translate [OF assms(1)])
    also have "\<dots> = cell w' ((y - dr) mod 8) ((x - dc) mod 8)"
      by (simp add: w'(2))
    also have "\<dots> = cell (translate dr dc w') y x"
      using yx by (simp add: cell_translate [OF w'(1)])
    finally show "cell t y x = cell (translate dr dc w') y x" .
  qed
  with t(1) show ?thesis by simp
qed

lemma updateWorld_wf: "wf_world w \<Longrightarrow> updateWorld w = Some w' \<Longrightarrow> wf_world w'"
  using updateWorld_cells [of w] by auto

lemma generations_translate:
  "wf_world w \<Longrightarrow> generations n w = Some w' \<Longrightarrow>
   generations n (translate dr dc w) = Some (translate dr dc w')"
proof (induction n arbitrary: w)
  case 0
  then show ?case by simp
next
  case (Suc n)
  from Suc.prems obtain w1 where w1: "updateWorld w = Some w1" "generations n w1 = Some w'"
    by (auto split: option.splits)
  have "wf_world w1" using Suc.prems(1) w1(1) by (rule updateWorld_wf)
  then have "generations n (translate dr dc w1) = Some (translate dr dc w')"
    using w1(2) by (rule Suc.IH)
  then show ?case
    by (simp add: updateWorld_translate [OF Suc.prems(1) w1(1)])
qed

lemma translate_translate:
  assumes "wf_world w"
  shows "translate a b (translate a' b' w) = translate (a + a') (b + b') w"
proof (rule grid_eqI [OF wf_world_translate wf_world_translate])
  fix y x :: int
  assume yx: "0 \<le> y" "y < 8" "0 \<le> x" "x < 8"
  have "cell (translate a b (translate a' b' w)) y x
      = cell (translate a' b' w) ((y - a) mod 8) ((x - b) mod 8)"
    using wf_world_translate yx by (rule cell_translate)
  also have "\<dots> = cell w ((y - a - a') mod 8) ((x - b - b') mod 8)"
    by (simp add: cell_translate_mod [OF assms])
  also have "\<dots> = cell (translate (a + a') (b + b') w) y x"
    using yx by (simp add: cell_translate [OF assms] algebra_simps)
  finally show "cell (translate a b (translate a' b' w)) y x
      = cell (translate (a + a') (b + b') w) y x" .
qed

lemma translate_0:
  assumes "wf_world w"
  shows "translate 0 0 w = w"
proof (rule grid_eqI [OF wf_world_translate assms])
  fix y x :: int
  assume yx: "0 \<le> y" "y < 8" "0 \<le> x" "x < 8"
  then show "cell (translate 0 0 w) y x = cell w y x"
    by (simp add: cell_translate [OF assms])
qed

section \<open>The glider and the block\<close>

lemma glider_4: "generations 4 glider = Some glider_moved"
  by code_simp

lemma glider_moved_eq: "translate 1 1 glider = glider_moved"
  by code_simp

lemma block_1: "updateWorld block = Some block"
  by code_simp

text \<open>
  C6. The glider on the torus. \<open>glider\<close> is the five-cell glider, all other cells dead;
  \<open>translate dr dc\<close> moves a pattern by (dr, dc) modulo 8. Wherever the glider is put on the
  torus, four calls of \<open>updateWorld\<close> give exactly the glider moved by (1, 1) modulo 8.
\<close>

theorem glider_on_torus:
  "translate 0 0 glider = glider \<and>
   generations 4 (translate dr dc glider) = Some (translate (dr + 1) (dc + 1) glider)"
proof -
  have "generations 4 (translate dr dc glider) = Some (translate dr dc glider_moved)"
    using wf_world_glider glider_4 by (rule generations_translate)
  also have "translate dr dc glider_moved = translate (dr + 1) (dc + 1) glider"
    unfolding glider_moved_eq [symmetric]
    by (rule translate_translate [OF wf_world_glider])
  finally show ?thesis
    by (simp add: translate_0 [OF wf_world_glider])
qed

text \<open>
  C7. The block is a still life. \<open>block\<close> is the 2x2 block of live cells, all other cells
  dead. Wherever the block is put on the torus (also across the edges), one call of
  \<open>updateWorld\<close> gives the same grid.
\<close>

theorem block_still_life:
  "translate 0 0 block = block \<and>
   updateWorld (translate dr dc block) = Some (translate dr dc block)"
  using updateWorld_translate [OF wf_world_block block_1, of dr dc]
  by (simp add: translate_0 [OF wf_world_block])

section \<open>The display driver\<close>

lemma length_row: "length (row an) = 8"
  by (simp add: row_def)

lemma length_col: "length (col an) = 8"
  by (simp add: col_def)

lemma row_inj:
  "distinct (row an @ col an) \<Longrightarrow> r < 8 \<Longrightarrow> r' < 8 \<Longrightarrow> (row an ! r = row an ! r') = (r = r')"
  by (simp add: nth_eq_iff_index_eq length_row)

lemma col_inj:
  "distinct (row an @ col an) \<Longrightarrow> c < 8 \<Longrightarrow> c' < 8 \<Longrightarrow> (col an ! c = col an ! c') = (c = c')"
  by (simp add: nth_eq_iff_index_eq length_col)

lemma row_col_neq:
  assumes "distinct (row an @ col an)" "r < 8" "c < 8"
  shows "row an ! r \<noteq> col an ! c"
proof -
  have "row an ! r \<in> set (row an)" "col an ! c \<in> set (col an)"
    using assms(2,3) by (simp_all add: length_row length_col)
  moreover have "set (row an) \<inter> set (col an) = {}" using assms(1) by simp
  ultimately show ?thesis by auto
qed

lemma upd_row:
  "distinct (row an @ col an) \<Longrightarrow> r < 8 \<Longrightarrow> r' < 8 \<Longrightarrow>
   (s(row an ! r := v)) (row an ! r') = (if r' = r then v else s (row an ! r'))"
  by (simp add: row_inj)

lemma upd_row_col:
  "distinct (row an @ col an) \<Longrightarrow> r < 8 \<Longrightarrow> c < 8 \<Longrightarrow>
   (s(row an ! r := v)) (col an ! c) = s (col an ! c)"
  using row_col_neq [of an r c] by simp

lemma upd_col:
  "distinct (row an @ col an) \<Longrightarrow> c < 8 \<Longrightarrow> c' < 8 \<Longrightarrow>
   (s(col an ! c := v)) (col an ! c') = (if c' = c then v else s (col an ! c'))"
  by (simp add: col_inj)

lemma upd_col_row:
  "distinct (row an @ col an) \<Longrightarrow> c < 8 \<Longrightarrow> r < 8 \<Longrightarrow>
   (s(col an ! c := v)) (row an ! r) = s (row an ! r)"
  using row_col_neq [of an r c] by simp

lemma all_off_iff:
  "all_off an s \<longleftrightarrow> (\<forall>r<8. \<not> s (row an ! r)) \<and> (\<forall>c<8. s (col an ! c))"
  by (auto simp add: all_off_def)

lemma row_active_iff:
  "row_active an r s \<longleftrightarrow> (\<forall>r'<8. s (row an ! r') = (r' = r)) \<and> (\<forall>c<8. s (col an ! c))"
  by (auto simp add: row_active_def)

lemma col_sinking_iff:
  "col_sinking an r c s \<longleftrightarrow>
     (\<forall>r'<8. s (row an ! r') = (r' = r)) \<and> (\<forall>c'<8. s (col an ! c') = (c' \<noteq> c))"
  by (auto simp add: col_sinking_def)

lemma scan_ok_iff:
  "scan_ok an w s \<longleftrightarrow>
     (\<forall>r<8. \<forall>r'<8. s (row an ! r) \<and> s (row an ! r') \<longrightarrow> r = r') \<and>
     ((\<forall>r<8. \<not> s (row an ! r)) \<longrightarrow> (\<forall>c<8. s (col an ! c))) \<and>
     (\<forall>r<8. \<forall>c<8. s (row an ! r) \<and> \<not> s (col an ! c) \<longrightarrow> cell w (int r) (int c) = Some True)"
  by (auto simp add: scan_ok_def lit_def)

lemma off_to_active:
  assumes d: "distinct (row an @ col an)" and "r < 8" "all_off an s"
  shows "row_active an r (s(row an ! r := HIGH))"
  using assms(2,3) unfolding row_active_iff all_off_iff
  by (simp add: upd_row [OF d] upd_row_col [OF d] del: fun_upd_apply)

lemma active_to_off:
  assumes d: "distinct (row an @ col an)" and "r < 8" "row_active an r s"
  shows "all_off an (s(row an ! r := LOW))"
  using assms(2,3) unfolding row_active_iff all_off_iff
  by (simp add: upd_row [OF d] upd_row_col [OF d] del: fun_upd_apply)

lemma active_to_sinking:
  assumes d: "distinct (row an @ col an)" and "c < 8" "row_active an r s"
  shows "col_sinking an r c (s(col an ! c := LOW))"
  using assms(2,3) unfolding row_active_iff col_sinking_iff
  by (simp add: upd_col [OF d] upd_col_row [OF d] del: fun_upd_apply)

lemma sinking_to_active:
  assumes d: "distinct (row an @ col an)" and "c < 8" "col_sinking an r c s"
  shows "row_active an r (s(col an ! c := HIGH))"
  using assms(2,3) unfolding row_active_iff col_sinking_iff
  by (simp add: upd_col [OF d] upd_col_row [OF d] del: fun_upd_apply)

lemma active_col_high:
  assumes "c < 8" "row_active an r s"
  shows "s(col an ! c := HIGH) = s"
proof -
  from assms have "s (col an ! c) = HIGH" by (simp add: row_active_iff)
  then show ?thesis by (rule fun_upd_idem)
qed

lemma scan_ok_off: "all_off an s \<Longrightarrow> scan_ok an w s"
  by (simp add: scan_ok_iff all_off_iff)

lemma scan_ok_active: "row_active an r s \<Longrightarrow> scan_ok an w s"
  by (simp add: scan_ok_iff row_active_iff)

lemma scan_ok_sinking:
  "col_sinking an r c s \<Longrightarrow> cell w (int r) (int c) = Some True \<Longrightarrow> r < 8 \<Longrightarrow> scan_ok an w s"
  by (auto simp add: scan_ok_iff col_sinking_iff)

lemma pins_after_digitalWrite:
  "pins_after s (digitalWrite pin val tr) = (pins_after s tr)(pin := val)"
  by (simp add: pins_after_def digitalWrite_def)

lemma at_every_point_Nil: "at_every_point P s [] = P s"
  by (simp add: at_every_point_def pins_after_def)

lemma at_every_point_digitalWrite:
  "at_every_point P s (digitalWrite pin val tr) \<longleftrightarrow>
     at_every_point P s tr \<and> P ((pins_after s tr)(pin := val))"
  unfolding at_every_point_def
  by (simp add: digitalWrite_def pins_after_def)

lemma index_row: "0 \<le> r \<Longrightarrow> r < 8 \<Longrightarrow> index (row an) r = Some (row an ! nat r)"
  by (simp add: index_def length_row)

lemma index_col: "0 \<le> c \<Longrightarrow> c < 8 \<Longrightarrow> index (col an) c = Some (col an ! nat c)"
  by (simp add: index_def length_col)

lemma dispWorld_cell:
  assumes d: "distinct (row an @ col an)" and wf: "wf_world w"
    and r: "0 \<le> r" "r < 8" and c: "0 \<le> c" "c < 8"
    and tr: "at_every_point (scan_ok an w) s0 tr" "row_active an (nat r) (pins_after s0 tr)"
  shows "\<exists>tr'. do {
             b \<leftarrow> cell w r c;
             cp \<leftarrow> index (col an) c;
             Some (digitalWrite cp HIGH (if b then digitalWrite cp LOW tr else tr))
           } = Some tr' \<and>
           at_every_point (scan_ok an w) s0 tr' \<and> row_active an (nat r) (pins_after s0 tr')"
proof -
  let ?b = "w ! nat r ! nat c" and ?cp = "col an ! nat c" and ?s = "pins_after s0 tr"
  have b: "cell w r c = Some ?b" using wf r c by (rule cell_Some)
  have cp: "index (col an) c = Some ?cp" using c by (rule index_col)
  have c8: "nat c < 8" and r8: "nat r < 8" using r c by simp_all
  let ?tr' = "digitalWrite ?cp HIGH (if ?b then digitalWrite ?cp LOW tr else tr)"
  have "at_every_point (scan_ok an w) s0 ?tr' \<and> row_active an (nat r) (pins_after s0 ?tr')"
  proof (cases ?b)
    case True
    have sink: "col_sinking an (nat r) (nat c) (?s(?cp := LOW))"
      using d c8 tr(2) by (rule active_to_sinking)
    have "cell w (int (nat r)) (int (nat c)) = Some True"
      using b True r c by simp
    with sink have ok1: "scan_ok an w (?s(?cp := LOW))"
      using r8 by (rule scan_ok_sinking)
    have act: "row_active an (nat r) (?s(?cp := LOW, ?cp := HIGH))"
      using d c8 sink by (rule sinking_to_active)
    then have ok2: "scan_ok an w (?s(?cp := LOW, ?cp := HIGH))"
      by (rule scan_ok_active)
    from True tr(1) ok1 ok2 act show ?thesis
      by (simp add: at_every_point_digitalWrite pins_after_digitalWrite del: fun_upd_upd)
  next
    case False
    have "?s(?cp := HIGH) = ?s" using c8 tr(2) by (rule active_col_high)
    with False tr scan_ok_active [OF tr(2)] show ?thesis
      by (simp add: at_every_point_digitalWrite pins_after_digitalWrite)
  qed
  then show ?thesis by (simp add: b cp)
qed

lemma dispWorld_row:
  assumes d: "distinct (row an @ col an)" and wf: "wf_world w"
    and r: "0 \<le> r" "r < 8"
    and tr: "at_every_point (scan_ok an w) s0 tr" "all_off an (pins_after s0 tr)"
  shows "\<exists>tr'. do {
             rp \<leftarrow> index (row an) r;
             for_loop [0..COLS - 1] (\<lambda>c tr. do {
                 b \<leftarrow> cell w r c;
                 cp \<leftarrow> index (col an) c;
                 Some (digitalWrite cp HIGH (if b then digitalWrite cp LOW tr else tr))
               }) (digitalWrite rp HIGH tr)
             \<bind> (\<lambda>tr. Some (digitalWrite rp LOW tr))
           } = Some tr' \<and>
           at_every_point (scan_ok an w) s0 tr' \<and> all_off an (pins_after s0 tr')"
proof -
  let ?rp = "row an ! nat r"
  let ?body = "\<lambda>c tr. do {
                 b \<leftarrow> cell w r c;
                 cp \<leftarrow> index (col an) c;
                 Some (digitalWrite cp HIGH (if b then digitalWrite cp LOW tr else tr))
               }"
  let ?I = "\<lambda>(pre :: int list) tr.
     at_every_point (scan_ok an w) s0 tr \<and> row_active an (nat r) (pins_after s0 tr)"
  have rp: "index (row an) r = Some ?rp" using r by (rule index_row)
  have r8: "nat r < 8" using r by simp
  let ?tr1 = "digitalWrite ?rp HIGH tr"
  have act: "row_active an (nat r) (pins_after s0 ?tr1)"
    unfolding pins_after_digitalWrite using d r8 tr(2) by (rule off_to_active)
  have "\<exists>tr2. for_loop [0..7] ?body ?tr1 = Some tr2 \<and> ?I ([] @ [0..7]) tr2"
  proof (rule for_loop_inv [where I = ?I])
    show "?I [] ?tr1"
      using act tr(1) scan_ok_active [OF act]
      by (simp add: at_every_point_digitalWrite pins_after_digitalWrite)
  next
    fix pre c t
    assume "?I pre t" and "c \<in> set [0..7]"
    then have c: "0 \<le> c" "c < 8" and t: "at_every_point (scan_ok an w) s0 t"
      "row_active an (nat r) (pins_after s0 t)" by simp_all
    from dispWorld_cell [OF d wf r c t]
    show "\<exists>tr'. ?body c t = Some tr' \<and> ?I (pre @ [c]) tr'" by simp
  qed
  then obtain tr2 where tr2: "for_loop [0..7] ?body ?tr1 = Some tr2"
    "at_every_point (scan_ok an w) s0 tr2" "row_active an (nat r) (pins_after s0 tr2)"
    by auto
  have off: "all_off an (pins_after s0 (digitalWrite ?rp LOW tr2))"
    unfolding pins_after_digitalWrite using d r8 tr2(3) by (rule active_to_off)
  then have "at_every_point (scan_ok an w) s0 (digitalWrite ?rp LOW tr2)"
    using tr2(2) scan_ok_off [OF off]
    by (simp add: at_every_point_digitalWrite pins_after_digitalWrite)
  with off tr2(1) show ?thesis by (simp add: rp)
qed

lemma dispWorld_invariant:
  assumes d: "distinct (row an @ col an)" and wf: "wf_world w"
    and tr: "at_every_point (scan_ok an w) s0 tr" "all_off an (pins_after s0 tr)"
  shows "\<exists>tr'. dispWorld an w tr = Some tr' \<and>
           at_every_point (scan_ok an w) s0 tr' \<and> all_off an (pins_after s0 tr')"
proof -
  let ?I = "\<lambda>(pre :: int list) tr.
     at_every_point (scan_ok an w) s0 tr \<and> all_off an (pins_after s0 tr)"
  have "\<exists>tr'. dispWorld an w tr = Some tr' \<and> ?I ([] @ [0..7]) tr'"
    unfolding dispWorld_def
  proof (rule for_loop_inv [where I = ?I])
    show "?I [] tr" using tr by simp
  next
    fix pre r t
    assume "?I pre t" and "r \<in> set [0..8 - 1]"
    then have r: "0 \<le> r" "r < 8" and t: "at_every_point (scan_ok an w) s0 t"
      "all_off an (pins_after s0 t)" by simp_all
    from dispWorld_row [OF d wf r t]
    show "\<exists>tr'. do {
             rp \<leftarrow> index (row an) r;
             for_loop [0..COLS - 1] (\<lambda>c tr. do {
                 b \<leftarrow> cell w r c;
                 cp \<leftarrow> index (col an) c;
                 Some (digitalWrite cp HIGH (if b then digitalWrite cp LOW tr else tr))
               }) (digitalWrite rp HIGH t)
             \<bind> (\<lambda>tr. Some (digitalWrite rp LOW tr))
           } = Some tr' \<and> ?I (pre @ [r]) tr'" by simp
  qed
  then show ?thesis by simp
qed

text \<open>Whatever the pin levels at power-on, \<open>setup\<close> leaves the display off.\<close>

lemma setup_pins_off:
  assumes d: "distinct (row an @ col an)"
  shows "\<exists>tr. setup_pins an [] = Some tr \<and> all_off an (pins_after s tr)"
proof -
  let ?I = "\<lambda>pre tr. \<forall>j<8. int j \<in> set pre \<longrightarrow>
     \<not> pins_after s tr (row an ! j) \<and> pins_after s tr (col an ! j)"
  have "\<exists>tr. setup_pins an [] = Some tr \<and> ?I ([] @ [0..7]) tr"
    unfolding setup_pins_def
  proof (rule for_loop_inv [where I = ?I])
    show "?I [] []" by simp
  next
    fix pre i tr
    assume I: "?I pre tr" and "i \<in> set [0..7]"
    then have i: "0 \<le> i" "i < 8" by simp_all
    then have i8: "nat i < 8" by simp
    let ?tr' = "digitalWrite (row an ! nat i) LOW (digitalWrite (col an ! nat i) HIGH tr)"
    have "?I (pre @ [i]) ?tr'"
    proof (intro allI impI)
      fix j :: nat
      assume j: "j < 8" "int j \<in> set (pre @ [i])"
      show "\<not> pins_after s ?tr' (row an ! j) \<and> pins_after s ?tr' (col an ! j)"
      proof (cases "j = nat i")
        case True
        with i8 show ?thesis
          by (simp add: pins_after_digitalWrite upd_row [OF d] upd_row_col [OF d] upd_col [OF d]
              del: fun_upd_apply)
      next
        case False
        with j i have "int j \<in> set pre" by auto
        with I j(1) have "\<not> pins_after s tr (row an ! j) \<and> pins_after s tr (col an ! j)"
          by blast
        with False i8 j(1) show ?thesis
          by (simp add: pins_after_digitalWrite upd_row [OF d] upd_row_col [OF d]
              upd_col [OF d] upd_col_row [OF d] del: fun_upd_apply)
      qed
    qed
    then show "\<exists>tr'. do {
         cp \<leftarrow> index (col an) i;
         rp \<leftarrow> index (row an) i;
         Some (digitalWrite rp LOW (digitalWrite cp HIGH tr))
       } = Some tr' \<and> ?I (pre @ [i]) tr'"
      using i by (simp add: index_row index_col)
  qed
  then obtain tr where tr: "setup_pins an [] = Some tr" "?I [0..7] tr" by auto
  have "all_off an (pins_after s tr)"
    unfolding all_off_iff using tr(2) by simp
  with tr(1) show ?thesis by blast
qed

text \<open>
  C8. For every 8x8 grid, take the pin writes of one call of \<open>dispWorld\<close>, starting with
  the display off, as \<open>setup\<close> and every earlier call leave it. Before the first write and after every write: at most one row line is
  HIGH, so a row is set back to LOW before the next one is set HIGH; whenever no row line is
  HIGH, that is outside the active window of every row, all column lines are HIGH; and an
  LED is lit, its row line HIGH and its column line LOW, only if its cell is alive. At the
  end the display is off again. The sixteen pins are assumed to be different pins.
\<close>

theorem dispWorld_scan:
  assumes "wf_world w" "distinct (row an @ col an)" "all_off an s0"
  shows "\<exists>tr. dispWorld an w [] = Some tr \<and> at_every_point (scan_ok an w) s0 tr \<and>
           all_off an (pins_after s0 tr)"
proof -
  have "at_every_point (scan_ok an w) s0 []"
    using assms(3) by (simp add: at_every_point_Nil scan_ok_off)
  moreover have "all_off an (pins_after s0 [])"
    using assms(3) by (simp add: pins_after_def)
  ultimately show ?thesis
    using assms(2,1) by (intro dispWorld_invariant)
qed

lemma distinct_mega: "distinct (row mega @ col mega)"
  by (simp add: row_def col_def mega_def)

lemma all_off_mega: "all_off mega (\<lambda>pin. pin \<in> set (col mega))"
proof -
  have "col mega ! c \<in> set (col mega)" if "c < 8" for c
    using that by (simp add: length_col)
  moreover have "row mega ! r \<notin> set (col mega)" if "r < 8" for r
  proof -
    have "row mega ! r \<in> set (row mega)" using that by (simp add: length_row)
    with distinct_mega show ?thesis by auto
  qed
  ultimately show ?thesis by (simp add: all_off_iff)
qed

theorem dispWorld_scan_witness:
  "wf_world glider \<and> distinct (row mega @ col mega) \<and> all_off mega (\<lambda>pin. pin \<in> set (col mega)) \<and>
   (\<exists>tr. dispWorld mega glider [] = Some tr \<and>
      at_every_point (scan_ok mega glider) (\<lambda>pin. pin \<in> set (col mega)) tr \<and>
      all_off mega (pins_after (\<lambda>pin. pin \<in> set (col mega)) tr))"
  using dispWorld_scan [OF wf_world_glider distinct_mega all_off_mega]
    wf_world_glider distinct_mega all_off_mega
  by simp

section \<open>The interrupt handlers and loop\<close>

text \<open>
  C9. \<open>togglePause\<close> negates \<open>paused\<close>, so two firings restore the state; \<open>setStep\<close> sets
  \<open>step\<close> when \<open>paused\<close> is true and changes nothing otherwise. Neither changes the grid,
  \<open>lastTime\<close> or the other flag.
\<close>

theorem handlers_flags:
  "togglePause s = s\<lparr>paused := \<not> paused s\<rparr> \<and>
   togglePause (togglePause s) = s \<and>
   world (togglePause s) = world s \<and> lastTime (togglePause s) = lastTime s \<and>
   step (togglePause s) = step s \<and>
   setStep s = (if paused s then s\<lparr>step := True\<rparr> else s) \<and>
   step (setStep s) = (paused s \<or> step s) \<and>
   world (setStep s) = world s \<and> lastTime (setStep s) = lastTime s \<and>
   paused (setStep s) = paused s"
  by (simp add: togglePause_def setStep_def)

lemma lonely_dies: "updateWorld lonely = Some emptyWorld"
  by code_simp

lemma dispWorld_Some:
  assumes "wf_world w" "distinct (row an @ col an)"
  shows "\<exists>tr. dispWorld an w [] = Some tr"
proof -
  let ?s0 = "\<lambda>pin. pin \<in> set (col an)"
  have "col an ! c \<in> set (col an)" if "c < 8" for c
    using that by (simp add: length_col)
  moreover have "row an ! r \<notin> set (col an)" if "r < 8" for r
  proof -
    have "row an ! r \<in> set (row an)" using that by (simp add: length_row)
    with assms(2) show ?thesis by auto
  qed
  ultimately have off: "all_off an ?s0" by (simp add: all_off_iff)
  then have "at_every_point (scan_ok an w) ?s0 []" "all_off an (pins_after ?s0 [])"
    by (simp_all add: at_every_point_Nil scan_ok_off pins_after_def)
  with assms(2,1) have "\<exists>tr'. dispWorld an w [] = Some tr' \<and>
      at_every_point (scan_ok an w) ?s0 tr' \<and> all_off an (pins_after ?s0 tr')"
    by (rule dispWorld_invariant)
  then show ?thesis by blast
qed

text \<open>A pass of \<open>loop\<close> changes neither flag.\<close>

lemma loop_keeps_flags:
  "loop an time s = Some (s', tr) \<Longrightarrow> paused s' = paused s \<and> step s' = step s"
  by (auto simp add: loop_def split: bind_splits if_splits)

text \<open>
  C1 asks that a pass of \<open>loop\<close> that reaches the one-second period leaves the grid
  unchanged while \<open>paused\<close> is true and \<open>step\<close> is false, and that it clears \<open>step\<close>.
  \<open>loop\<close> reads neither flag and never writes \<open>step\<close>. With \<open>paused\<close> true and \<open>step\<close>
  false, a grid with one live cell, \<open>lastTime\<close> 0 and \<open>millis()\<close> 1000, the pass replaces the
  grid by the empty grid; with \<open>step\<close> true, \<open>step\<close> is still true after the pass.
\<close>

theorem loop_ignores_pause:
  "map_option fst (loop mega 1000 \<lparr>world = lonely, lastTime = 0, paused = True, step = False\<rparr>)
     = Some \<lparr>world = emptyWorld, lastTime = 1000, paused = True, step = False\<rparr>
   \<and> lonely \<noteq> emptyWorld
   \<and> map_option fst (loop mega 1000 \<lparr>world = lonely, lastTime = 0, paused = True, step = True\<rparr>)
     = Some \<lparr>world = emptyWorld, lastTime = 1000, paused = True, step = True\<rparr>"
proof -
  from dispWorld_Some [OF wf_world_emptyWorld distinct_mega]
  obtain tr where "dispWorld mega emptyWorld [] = Some tr" ..
  moreover have "cell lonely 0 0 \<noteq> cell emptyWorld 0 0"
    by code_simp
  then have "lonely \<noteq> emptyWorld"
    by auto
  ultimately show ?thesis
    by (simp add: loop_def lonely_dies)
qed

end
